theory Spec2Isabelle
  imports Main
begin

section \<open>Data model of the patch configuration (tools/apply-all-patches.ts)\<close>

text \<open>
  The interfaces \<open>PatchCheckFile\<close>, \<open>PatchCheck\<close>, \<open>PatchConfig\<close>, \<open>CategoryConfig\<close> and
  \<open>Config\<close> of the configuration-driven script. The fields \<open>id\<close>, \<open>file\<close> and \<open>type\<close> are
  called \<open>patch_id\<close>, \<open>patch_file\<close> and \<open>check_type\<close>. The interface gives \<open>type\<close> the literal
  type \<open>"grep"\<close>; the model keeps the string that the YAML document holds, because the
  document is cast to \<open>Config\<close> unchecked and the script compares the tag with \<open>"grep"\<close> at
  run time. The record \<open>categories\<close> is kept as the list of its keys and values.
\<close>

record PatchCheckFile =
  path :: string
  patterns :: "string list"

record PatchCheck =
  check_type :: string
  files :: "PatchCheckFile list"

record PatchConfig =
  patch_id :: string
  name :: string
  patch_file :: string
  description :: string
  category :: string
  enabled :: bool
  dependencies :: "string list"
  checkApplied :: PatchCheck

record CategoryConfig =
  category_name :: string
  category_description :: string

record Config =
  patches :: "PatchConfig list"
  categories :: "(string \<times> CategoryConfig) list"

section \<open>Dependency resolution\<close>

text \<open>
  \<open>resolveDependencies\<close> ends the process (after \<open>console.error\<close>) in two places; the
  model returns the corresponding error value instead, carrying the id that is printed.
\<close>

datatype resolve_error = CircularDependency string | PatchNotFound string

text \<open>\<open>patches.find((p) => p.id === patchId)\<close>: the first entry with that id.\<close>

definition findPatch :: "PatchConfig list \<Rightarrow> string \<Rightarrow> PatchConfig option" where
  "findPatch ps patchId = find (\<lambda>p. patch_id p = patchId) ps"

text \<open>
  The function threads the mutable set \<open>resolved\<close> through all calls, so the model returns
  it next to the order. The set \<open>visiting\<close> is passed downwards only: the source adds
  \<open>patchId\<close> to it before the loop over the dependencies and deletes it after the loop, and
  \<open>patchId\<close> was not a member before (that case has just ended the process), so after a
  call that returns the set is what it was before the call.
  \<open>resolveDeps\<close> is the \<open>for (const depId of patch.dependencies)\<close> loop, with the local
  array \<open>order\<close> as accumulator.
\<close>

function resolveDependencies ::
    "PatchConfig list \<Rightarrow> string \<Rightarrow> string set \<Rightarrow> string set
      \<Rightarrow> resolve_error + (string list \<times> string set)"
  and resolveDeps ::
    "PatchConfig list \<Rightarrow> string list \<Rightarrow> string list \<Rightarrow> string set \<Rightarrow> string set
      \<Rightarrow> resolve_error + (string list \<times> string set)"
where
  "resolveDependencies ps patchId resolved visiting =
     (if patchId \<in> resolved then Inr ([], resolved)
      else if patchId \<in> visiting then Inl (CircularDependency patchId)
      else (case findPatch ps patchId of
              None \<Rightarrow> Inl (PatchNotFound patchId)
            | Some patch \<Rightarrow>
                (case resolveDeps ps (dependencies patch) [] resolved (insert patchId visiting) of
                   Inl e \<Rightarrow> Inl e
                 | Inr (order, resolved') \<Rightarrow> Inr (order @ [patchId], insert patchId resolved'))))"
| "resolveDeps ps [] order resolved visiting = Inr (order, resolved)"
| "resolveDeps ps (depId # rest) order resolved visiting =
     (case resolveDependencies ps depId resolved visiting of
        Inl e \<Rightarrow> Inl e
      | Inr (sub, resolved') \<Rightarrow> resolveDeps ps rest (order @ sub) resolved' visiting)"
  by pat_completeness auto

termination
proof (relation "inv_image (less_than <*lex*> less_than)
    (\<lambda>a. case a of
        Inl (ps, patchId, resolved, visiting) \<Rightarrow> (card (patch_id ` set ps - visiting), 0)
      | Inr (ps, deps, order, resolved, visiting) \<Rightarrow>
          (card (patch_id ` set ps - visiting), Suc (length deps)))", goal_cases)
  case 1
  show ?case by (intro wf_inv_image wf_lex_prod wf_less_than)
next
  case (2 ps patchId resolved visiting patch)
  from 2 have "patchId \<in> patch_id ` set ps - visiting"
    by (auto simp: findPatch_def find_Some_iff)
  then have "card (patch_id ` set ps - insert patchId visiting) < card (patch_id ` set ps - visiting)"
    by (metis Diff_insert card_Diff1_less finite_Diff finite_imageI finite_set)
  then show ?case by simp
next
  case 3
  then show ?case by simp
next
  case 4
  then show ?case by simp
qed

text \<open>
  The first part of \<open>applyPatches\<close>. \<open>selected\<close> is the predicate of the filter; an option
  that is absent or the empty string is falsy in \<open>options.category && ...\<close>.
\<close>

record apply_options =
  opt_category :: "string option"
  opt_all :: bool

definition selected :: "apply_options \<Rightarrow> PatchConfig \<Rightarrow> bool" where
  "selected options p =
     (if (case opt_category options of None \<Rightarrow> False
          | Some c \<Rightarrow> c \<noteq> [] \<and> category p \<noteq> c) then False
      else if \<not> opt_all options \<and> \<not> enabled p then False
      else True)"

definition patchesToApply :: "Config \<Rightarrow> apply_options \<Rightarrow> PatchConfig list" where
  "patchesToApply config options = filter (selected options) (patches config)"

text \<open>
  \<open>for (const depId of deps) if (!applyOrder.includes(depId)) applyOrder.push(depId)\<close>
\<close>

fun pushNew :: "string list \<Rightarrow> string list \<Rightarrow> string list" where
  "pushNew applyOrder [] = applyOrder"
| "pushNew applyOrder (depId # deps) =
     pushNew (if depId \<in> set applyOrder then applyOrder else applyOrder @ [depId]) deps"

text \<open>
  \<open>for (const patch of patchesToApply)\<close>: every call of \<open>resolveDependencies\<close> shares the set
  \<open>resolved\<close> and gets a fresh, empty \<open>visiting\<close> (the default parameter).
\<close>

fun resolveApplyOrder ::
    "PatchConfig list \<Rightarrow> PatchConfig list \<Rightarrow> string set \<Rightarrow> string list
      \<Rightarrow> resolve_error + string list" where
  "resolveApplyOrder ps [] resolved applyOrder = Inr applyOrder"
| "resolveApplyOrder ps (patch # rest) resolved applyOrder =
     (case resolveDependencies ps (patch_id patch) resolved {} of
        Inl e \<Rightarrow> Inl e
      | Inr (deps, resolved') \<Rightarrow> resolveApplyOrder ps rest resolved' (pushNew applyOrder deps))"

section \<open>The world outside the script\<close>

text \<open>
  What a path of the file system holds, as far as \<open>existsSync\<close> and \<open>grep\<close> can tell.
\<close>

datatype node = Missing | Unreadable | Directory | File string

type_synonym filesystem = "string \<Rightarrow> node"

text \<open>
  The external programs and constants the script relies on:
  \<^item> \<open>grep pattern filePath fs\<close>: the exit status of \<open>grep -q pattern filePath\<close>. The
    script hands the pattern to grep as a bare argument, without \<open>-e\<close> or \<open>--\<close>, so what grep
    does with it (search for it in the file, or read it as an option) is grep's own affair;
  \<^item> \<open>git_apply_check dir patchFile fs\<close>: the exit status of
    \<open>cd dir && git apply --check patchFile\<close>;
  \<^item> \<open>git_apply dir patchFile fs\<close>: the exit status of \<open>cd dir && git apply patchFile\<close> and
    the file system it leaves;
  \<^item> \<open>bun_write_ok config\<close>: whether writing the configuration file succeeds.
\<close>

record env =
  OPENCODE_DIR :: string
  PATCHES_DIR :: string
  join :: "string \<Rightarrow> string \<Rightarrow> string"
  grep :: "string \<Rightarrow> string \<Rightarrow> filesystem \<Rightarrow> nat"
  git_apply_check :: "string \<Rightarrow> string \<Rightarrow> filesystem \<Rightarrow> nat"
  git_apply :: "string \<Rightarrow> string \<Rightarrow> filesystem \<Rightarrow> nat \<times> filesystem"
  bun_write_ok :: "Config \<Rightarrow> bool"

datatype git_call = ApplyCheck string | Apply string

text \<open>The lines the modelled functions print, one constructor for each template.\<close>

datatype message =
    PatchFileNotFound string
  | OpenCodeDirNotFound string
  | InitializeSubmoduleFirst
  | FailedToApplyPatch string
  | FailedWithExitCode nat
  | CircularDependencyDetected string
  | PatchNotFoundMsg string
  | PatchesFailedToApply nat
  | NoPatchesToApply
  | FailedToSaveConfiguration
  | PatchAlreadyEnabled string
  | EnabledPatch string
  | PatchAlreadyDisabled string
  | CannotDisablePatch string
  | EnabledPatchesDependOnIt
  | DependentLine string
  | DisabledPatch string

text \<open>
  The state the script acts on: the file system, the \<open>git apply\<close> commands run so far, the
  lines written with \<open>console.error\<close> and \<open>console.log\<close>, and the configurations written
  by \<open>saveConfig\<close>.
\<close>

record world =
  fs :: filesystem
  git_calls :: "git_call list"
  stderr :: "message list"
  stdout :: "message list"
  saved :: "Config list"

definition console_error :: "message list \<Rightarrow> world \<Rightarrow> world" where
  "console_error ms w = w\<lparr>stderr := stderr w @ ms\<rparr>"

definition console_log :: "message list \<Rightarrow> world \<Rightarrow> world" where
  "console_log ms w = w\<lparr>stdout := stdout w @ ms\<rparr>"

definition existsSync :: "filesystem \<Rightarrow> string \<Rightarrow> bool" where
  "existsSync f p \<longleftrightarrow> f p \<noteq> Missing"

section \<open>Content verifier\<close>

text \<open>
  \<open>await $`grep -q ${pattern} ${filePath}`.quiet()\<close> throws unless grep exits with 0.
  \<open>grep_q\<close> is True when the command does not throw.
\<close>

definition grep_q :: "env \<Rightarrow> string \<Rightarrow> string \<Rightarrow> filesystem \<Rightarrow> bool" where
  "grep_q e pattern filePath f \<longleftrightarrow> grep e pattern filePath f = 0"


text \<open>
  The two nested loops of \<open>checkPatchApplied\<close>; the first command that throws leaves both
  loops through the \<open>catch\<close>, which returns false.
\<close>

fun checkPatterns :: "env \<Rightarrow> string \<Rightarrow> string list \<Rightarrow> filesystem \<Rightarrow> bool" where
  "checkPatterns e filePath [] f = True"
| "checkPatterns e filePath (pattern # rest) f =
     (if grep_q e pattern filePath f then checkPatterns e filePath rest f else False)"

fun checkFiles :: "env \<Rightarrow> PatchCheckFile list \<Rightarrow> filesystem \<Rightarrow> bool" where
  "checkFiles e [] f = True"
| "checkFiles e (file # rest) f =
     (if checkPatterns e (join e (OPENCODE_DIR e) (path file)) (patterns file) f
      then checkFiles e rest f else False)"

definition checkPatchApplied :: "env \<Rightarrow> PatchConfig \<Rightarrow> filesystem \<Rightarrow> bool" where
  "checkPatchApplied e patch f =
     (if check_type (checkApplied patch) \<noteq> ''grep'' then False
      else checkFiles e (files (checkApplied patch)) f)"

section \<open>Patch applier\<close>

text \<open>The \<open>catch (error)\<close> block of \<open>applyPatch\<close>, entered with the exit code of the command
  that failed.\<close>

definition applyPatch_catch :: "env \<Rightarrow> PatchConfig \<Rightarrow> nat \<Rightarrow> world \<Rightarrow> bool \<times> world" where
  "applyPatch_catch e patch exitCode w =
     (if checkPatchApplied e patch (fs w) then (True, w)
      else (False, console_error
              [FailedToApplyPatch (patch_id patch), FailedWithExitCode exitCode] w))"

definition applyPatch :: "env \<Rightarrow> PatchConfig \<Rightarrow> world \<Rightarrow> bool \<times> world" where
  "applyPatch e patch w =
     (if checkPatchApplied e patch (fs w) then (True, w)
      else
        let patchFile = join e (PATCHES_DIR e) (patch_file patch) in
        if \<not> existsSync (fs w) patchFile
        then (False, console_error [PatchFileNotFound patchFile] w)
        else if \<not> existsSync (fs w) (OPENCODE_DIR e)
        then (False, console_error
                [OpenCodeDirNotFound (OPENCODE_DIR e), InitializeSubmoduleFirst] w)
        else
          let w1 = w\<lparr>git_calls := git_calls w @ [ApplyCheck patchFile]\<rparr>;
              c1 = git_apply_check e (OPENCODE_DIR e) patchFile (fs w)
          in if c1 \<noteq> 0 then applyPatch_catch e patch c1 w1
             else
               let (c2, f2) = git_apply e (OPENCODE_DIR e) patchFile (fs w1);
                   w2 = w1\<lparr>git_calls := git_calls w1 @ [Apply patchFile], fs := f2\<rparr>
               in if c2 \<noteq> 0 then applyPatch_catch e patch c2 w2
                  else (True, w2))"

section \<open>Batch apply\<close>

text \<open>How a command ends: it returns, or \<open>process.exit\<close> ends the process with a code.\<close>

datatype status = Returned | Exited nat

text \<open>
  \<open>for (const patchId of applyOrder)\<close>, with the array \<open>results\<close> as accumulator.
\<close>

fun applyInOrder ::
    "env \<Rightarrow> PatchConfig list \<Rightarrow> string list \<Rightarrow> bool list \<Rightarrow> world \<Rightarrow> bool list \<times> world" where
  "applyInOrder e ps [] results w = (results, w)"
| "applyInOrder e ps (patchId # rest) results w =
     (case findPatch ps patchId of
        None \<Rightarrow> applyInOrder e ps rest results w
      | Some patch \<Rightarrow>
          (let (result, w') = applyPatch e patch w
           in applyInOrder e ps rest (results @ [result]) w'))"

definition resolve_message :: "resolve_error \<Rightarrow> message" where
  "resolve_message err =
     (case err of CircularDependency x \<Rightarrow> CircularDependencyDetected x
      | PatchNotFound x \<Rightarrow> PatchNotFoundMsg x)"

definition applyPatches :: "env \<Rightarrow> Config \<Rightarrow> apply_options \<Rightarrow> world \<Rightarrow> status \<times> world" where
  "applyPatches e config options w =
     (let toApply = patchesToApply config options in
      if length toApply = 0 then (Returned, console_log [NoPatchesToApply] w)
      else
        case resolveApplyOrder (patches config) toApply {} [] of
          Inl err \<Rightarrow> (Exited 1, console_error [resolve_message err] w)
        | Inr applyOrder \<Rightarrow>
            (let (results, w') = applyInOrder e (patches config) applyOrder [] w;
                 failed = length (filter (\<lambda>r. \<not> r) results)
             in if failed > 0
                then (Exited 1, console_error [PatchesFailedToApply failed] w')
                else (Returned, w')))"

section \<open>Enabling and disabling\<close>

definition saveConfig :: "env \<Rightarrow> Config \<Rightarrow> world \<Rightarrow> status \<times> world" where
  "saveConfig e config w =
     (if bun_write_ok e config then (Returned, w\<lparr>saved := saved w @ [config]\<rparr>)
      else (Exited 1, console_error [FailedToSaveConfiguration] w))"

text \<open>
  \<open>patch.enabled = b\<close> on the object that \<open>find\<close> returned: the first entry with that id
  changes inside the configuration.
\<close>

fun setEnabled :: "PatchConfig list \<Rightarrow> string \<Rightarrow> bool \<Rightarrow> PatchConfig list" where
  "setEnabled [] patchId b = []"
| "setEnabled (p # ps) patchId b =
     (if patch_id p = patchId then p\<lparr>enabled := b\<rparr> # ps else p # setEnabled ps patchId b)"

definition enablePatch :: "env \<Rightarrow> Config \<Rightarrow> string \<Rightarrow> world \<Rightarrow> status \<times> Config \<times> world" where
  "enablePatch e config patchId w =
     (case findPatch (patches config) patchId of
        None \<Rightarrow> (Exited 1, config, console_error [PatchNotFoundMsg patchId] w)
      | Some patch \<Rightarrow>
          if enabled patch then (Returned, config, console_log [PatchAlreadyEnabled patchId] w)
          else
            let config' = config\<lparr>patches := setEnabled (patches config) patchId True\<rparr> in
            (case saveConfig e config' w of
               (Exited n, w') \<Rightarrow> (Exited n, config', w')
             | (Returned, w') \<Rightarrow> (Returned, config', console_log [EnabledPatch patchId] w')))"

definition dependents :: "Config \<Rightarrow> string \<Rightarrow> PatchConfig list" where
  "dependents config patchId =
     filter (\<lambda>p. enabled p \<and> patchId \<in> set (dependencies p)) (patches config)"

definition disablePatch :: "env \<Rightarrow> Config \<Rightarrow> string \<Rightarrow> world \<Rightarrow> status \<times> Config \<times> world" where
  "disablePatch e config patchId w =
     (case findPatch (patches config) patchId of
        None \<Rightarrow> (Exited 1, config, console_error [PatchNotFoundMsg patchId] w)
      | Some patch \<Rightarrow>
          if \<not> enabled patch
          then (Returned, config, console_log [PatchAlreadyDisabled patchId] w)
          else if length (dependents config patchId) > 0
          then (Exited 1, config,
                console_error
                  ([CannotDisablePatch patchId, EnabledPatchesDependOnIt]
                   @ map (\<lambda>p. DependentLine (patch_id p)) (dependents config patchId)) w)
          else
            let config' = config\<lparr>patches := setEnabled (patches config) patchId False\<rparr> in
            (case saveConfig e config' w of
               (Exited n, w') \<Rightarrow> (Exited n, config', w')
             | (Returned, w') \<Rightarrow> (Returned, config', console_log [DisabledPatch patchId] w')))"

section \<open>Recursion depth of the resolver\<close>

text \<open>
  \<open>resolveDependencies\<close> again, with a bound on the depth of the recursion: the first
  argument is the number of nested calls that may still get past the three checks and add
  their id to \<open>visiting\<close>. \<open>None\<close> means that the bound was too small.
\<close>

fun resolveDependencies_depth ::
    "nat \<Rightarrow> PatchConfig list \<Rightarrow> string \<Rightarrow> string set \<Rightarrow> string set
      \<Rightarrow> (resolve_error + (string list \<times> string set)) option"
  and resolveDeps_depth ::
    "nat \<Rightarrow> PatchConfig list \<Rightarrow> string list \<Rightarrow> string list \<Rightarrow> string set \<Rightarrow> string set
      \<Rightarrow> (resolve_error + (string list \<times> string set)) option"
where
  "resolveDependencies_depth n ps patchId resolved visiting =
     (if patchId \<in> resolved then Some (Inr ([], resolved))
      else if patchId \<in> visiting then Some (Inl (CircularDependency patchId))
      else (case findPatch ps patchId of
              None \<Rightarrow> Some (Inl (PatchNotFound patchId))
            | Some patch \<Rightarrow>
                (case n of
                   0 \<Rightarrow> None
                 | Suc m \<Rightarrow>
                     (case resolveDeps_depth m ps (dependencies patch) [] resolved
                             (insert patchId visiting) of
                        None \<Rightarrow> None
                      | Some (Inl e) \<Rightarrow> Some (Inl e)
                      | Some (Inr (order, resolved')) \<Rightarrow>
                          Some (Inr (order @ [patchId], insert patchId resolved'))))))"
| "resolveDeps_depth n ps [] order resolved visiting = Some (Inr (order, resolved))"
| "resolveDeps_depth n ps (depId # rest) order resolved visiting =
     (case resolveDependencies_depth n ps depId resolved visiting of
        None \<Rightarrow> None
      | Some (Inl e) \<Rightarrow> Some (Inl e)
      | Some (Inr (sub, resolved')) \<Rightarrow> resolveDeps_depth n ps rest (order @ sub) resolved' visiting)"

section \<open>The dependency graph\<close>

text \<open>
  The graph the resolver walks: the nodes are ids, and the dependencies of an id are those
  of the entry that \<open>find\<close> returns for it.
\<close>

definition declared :: "PatchConfig list \<Rightarrow> string set" where
  "declared ps = patch_id ` set ps"

definition deps_of :: "PatchConfig list \<Rightarrow> string \<Rightarrow> string list" where
  "deps_of ps x = (case findPatch ps x of None \<Rightarrow> [] | Some p \<Rightarrow> dependencies p)"

definition dep_rel :: "PatchConfig list \<Rightarrow> (string \<times> string) set" where
  "dep_rel ps = {(x, d). d \<in> set (deps_of ps x)}"

text \<open>The ids reachable from the requested entries through zero or more dependencies.\<close>

definition reachable :: "PatchConfig list \<Rightarrow> PatchConfig list \<Rightarrow> string set" where
  "reachable ps req = (dep_rel ps)\<^sup>* `` (patch_id ` set req)"

text \<open>The id named in the message of an error.\<close>

fun error_id :: "resolve_error \<Rightarrow> string" where
  "error_id (CircularDependency x) = x"
| "error_id (PatchNotFound x) = x"

text \<open>
  A set of ids is closed when all its members are declared and it contains the dependencies
  of its members. A list is in dependency order over \<open>R\<close> when each element is new, declared
  and has all its dependencies in \<open>R\<close> or earlier in the list.
\<close>

definition closed :: "PatchConfig list \<Rightarrow> string set \<Rightarrow> bool" where
  "closed ps R \<longleftrightarrow> R \<subseteq> declared ps \<and> (\<forall>x\<in>R. set (deps_of ps x) \<subseteq> R)"

fun topo :: "PatchConfig list \<Rightarrow> string set \<Rightarrow> string list \<Rightarrow> bool" where
  "topo ps R [] = True"
| "topo ps R (x # xs) =
     (x \<notin> R \<and> x \<in> declared ps \<and> set (deps_of ps x) \<subseteq> R \<and> topo ps (insert x R) xs)"

section \<open>Example configurations\<close>

text \<open>
  A registry entry with the given id, enabled flag and dependencies; the other fields are
  filled in from the id.
\<close>

definition example_patch :: "string \<Rightarrow> bool \<Rightarrow> string list \<Rightarrow> PatchConfig" where
  "example_patch i en deps =
     \<lparr>patch_id = i, name = i, patch_file = i @ ''.patch'', description = [],
      category = ''performance'', enabled = en, dependencies = deps,
      checkApplied = \<lparr>check_type = ''grep'', files = [\<lparr>path = i, patterns = [i]\<rparr>]\<rparr>\<rparr>"

text \<open>\<open>B\<close> and \<open>C\<close> depend on \<open>A\<close>; only \<open>B\<close> is enabled.\<close>

definition example_registry :: "PatchConfig list" where
  "example_registry =
     [example_patch ''A'' False [], example_patch ''B'' True [''A''],
      example_patch ''C'' False [''A'']]"

definition example_config :: Config where
  "example_config = \<lparr>patches = example_registry, categories = []\<rparr>"

definition default_options :: apply_options where
  "default_options = \<lparr>opt_category = None, opt_all = False\<rparr>"

text \<open>\<open>A\<close> and \<open>B\<close> depend on each other.\<close>

definition cyclic_registry :: "PatchConfig list" where
  "cyclic_registry = [example_patch ''A'' True [''B''], example_patch ''B'' True [''A'']]"

text \<open>The same cycle, but \<open>A\<close> first lists \<open>X\<close>, which no entry declares.\<close>

definition cyclic_dangling_registry :: "PatchConfig list" where
  "cyclic_dangling_registry =
     [example_patch ''A'' True [''X'', ''B''], example_patch ''B'' True [''A'']]"

text \<open>A disabled entry \<open>C\<close> lists the undeclared \<open>X\<close>; the enabled \<open>A\<close> has no dependency.\<close>

definition dangling_registry :: "PatchConfig list" where
  "dangling_registry = [example_patch ''A'' True [], example_patch ''C'' False [''X'']]"

section \<open>An example environment\<close>

text \<open>Whether the first string occurs in the second.\<close>

fun contains :: "string \<Rightarrow> string \<Rightarrow> bool" where
  "contains pat [] = (pat = [])"
| "contains pat (c # cs) = (take (length pat) (c # cs) = pat \<or> contains pat cs)"

text \<open>
  A small environment. \<open>grep\<close> prints its version or help and exits with 0 when the pattern
  is one of these options; otherwise it looks for the pattern as a literal substring, exits
  with 1 when the file does not hold it and with 2 when there is no readable file. A patch
  artifact is the text that \<open>git apply\<close> appends to the file \<open>target\<close> of the tree; it
  applies whenever artifact and target are files.
\<close>

definition example_grep :: "string \<Rightarrow> string \<Rightarrow> filesystem \<Rightarrow> nat" where
  "example_grep pattern filePath f =
     (if pattern \<in> {''--version'', ''--help'', ''-V''} then 0
      else case f filePath of
             File content \<Rightarrow> if contains pattern content then 0 else 1
           | _ \<Rightarrow> 2)"

definition example_git_apply_check :: "string \<Rightarrow> string \<Rightarrow> filesystem \<Rightarrow> nat" where
  "example_git_apply_check dir patchFile f =
     (case (f patchFile, f (dir @ ''/target'')) of (File c, File t) \<Rightarrow> 0 | _ \<Rightarrow> 1)"

definition example_git_apply :: "string \<Rightarrow> string \<Rightarrow> filesystem \<Rightarrow> nat \<times> filesystem" where
  "example_git_apply dir patchFile f =
     (case (f patchFile, f (dir @ ''/target'')) of
        (File c, File t) \<Rightarrow> (0, f(dir @ ''/target'' := File (t @ c)))
      | _ \<Rightarrow> (1, f))"

definition example_env :: env where
  "example_env =
     \<lparr>OPENCODE_DIR = ''/oc'', PATCHES_DIR = ''/patches'',
      join = (\<lambda>a b. a @ ''/'' @ b), grep = example_grep,
      git_apply_check = example_git_apply_check, git_apply = example_git_apply,
      bun_write_ok = (\<lambda>c. True)\<rparr>"

text \<open>A \<open>git apply\<close> that writes the expected text and then reports failure.\<close>

definition failing_env :: env where
  "failing_env =
     example_env\<lparr>git_apply := (\<lambda>dir patchFile f. (1, f(dir @ ''/target'' := File ''expected'')))\<rparr>"

text \<open>
  The same environment with a \<open>git apply\<close> that refuses an artifact whose text the target
  already holds.
\<close>

definition strict_git_apply_check :: "string \<Rightarrow> string \<Rightarrow> filesystem \<Rightarrow> nat" where
  "strict_git_apply_check dir patchFile f =
     (case (f patchFile, f (dir @ ''/target'')) of
        (File c, File t) \<Rightarrow> if contains c t then 1 else 0
      | _ \<Rightarrow> 1)"

definition strict_git_apply :: "string \<Rightarrow> string \<Rightarrow> filesystem \<Rightarrow> nat \<times> filesystem" where
  "strict_git_apply dir patchFile f =
     (case (f patchFile, f (dir @ ''/target'')) of
        (File c, File t) \<Rightarrow>
          if contains c t then (1, f) else (0, f(dir @ ''/target'' := File (t @ c)))
      | _ \<Rightarrow> (1, f))"

definition strict_env :: env where
  "strict_env =
     example_env\<lparr>git_apply_check := strict_git_apply_check, git_apply := strict_git_apply\<rparr>"

text \<open>
  A patch whose artifact appends \<open>new\<close> to \<open>target\<close> while its check looks for
  \<open>expected\<close>.
\<close>

definition stale_patch :: PatchConfig where
  "stale_patch =
     \<lparr>patch_id = ''P'', name = ''P'', patch_file = ''P.patch'', description = [],
      category = ''performance'', enabled = True, dependencies = [],
      checkApplied = \<lparr>check_type = ''grep'',
                       files = [\<lparr>path = ''target'', patterns = [''expected'']\<rparr>]\<rparr>\<rparr>"

definition example_fs :: filesystem where
  "example_fs =
     (\<lambda>p. Missing)(''/oc'' := Directory, ''/oc/target'' := File ''old'',
                     ''/patches/P.patch'' := File ''new'')"

definition example_world :: world where
  "example_world = \<lparr>fs = example_fs, git_calls = [], stderr = [], stdout = [], saved = []\<rparr>"

text \<open>The same world with the expected text already in \<open>target\<close>.\<close>

definition satisfied_world :: world where
  "satisfied_world = example_world\<lparr>fs := example_fs(''/oc/target'' := File ''as expected'')\<rparr>"

text \<open>The same world without the file \<open>target\<close>.\<close>

definition broken_world :: world where
  "broken_world = example_world\<lparr>fs := example_fs(''/oc/target'' := Missing)\<rparr>"





text \<open>
  The folded effect of \<open>applyPatch\<close> on a list of patches, one after the other, and the
  results it returns on the way.
\<close>

definition worldAfter :: "env \<Rightarrow> world \<Rightarrow> PatchConfig list \<Rightarrow> world" where
  "worldAfter e w ps = foldl (\<lambda>w' p. snd (applyPatch e p w')) w ps"

definition resultsOf :: "env \<Rightarrow> world \<Rightarrow> PatchConfig list \<Rightarrow> bool list" where
  "resultsOf e w ps =
     map (\<lambda>i. fst (applyPatch e (ps ! i) (worldAfter e w (take i ps)))) [0..<length ps]"

text \<open>
  A batch of two independent patches: the artifact of \<open>Q\<close> is missing from the example file
  system, the artifact of \<open>P\<close> applies.
\<close>

definition missing_artifact_patch :: PatchConfig where
  "missing_artifact_patch = stale_patch\<lparr>patch_id := ''Q'', patch_file := ''Q.patch''\<rparr>"

definition batch_config :: Config where
  "batch_config = \<lparr>patches = [missing_artifact_patch, stale_patch], categories = []\<rparr>"

text \<open>Two enabled patches, \<open>B\<close> depending on \<open>A\<close>.\<close>

definition chain_config :: Config where
  "chain_config =
     \<lparr>patches = [example_patch ''A'' True [], example_patch ''B'' True [''A'']],
      categories = []\<rparr>"

section \<open>Facts about lookup and the graph\<close>

lemma findPatch_Some:
  "findPatch ps x = Some p \<Longrightarrow> p \<in> set ps \<and> patch_id p = x"
  unfolding findPatch_def by (induction ps) (auto split: if_splits)

lemma findPatch_None: "findPatch ps x = None \<longleftrightarrow> x \<notin> declared ps"
  unfolding findPatch_def declared_def by (induction ps) auto

lemma topo_append:
  "topo ps R (xs @ ys) \<longleftrightarrow> topo ps R xs \<and> topo ps (R \<union> set xs) ys"
  by (induction xs arbitrary: R) auto

lemma topo_closed: "topo ps R xs \<Longrightarrow> closed ps R \<Longrightarrow> closed ps (R \<union> set xs)"
proof (induction xs arbitrary: R)
  case Nil
  then show ?case by simp
next
  case (Cons x xs)
  from Cons.prems have "closed ps (insert x R)"
    unfolding closed_def by auto
  with Cons.IH [of "insert x R"] Cons.prems show ?case by simp
qed

lemma topo_distinct: "topo ps R xs \<Longrightarrow> distinct xs \<and> set xs \<inter> R = {}"
proof (induction xs arbitrary: R)
  case Nil
  then show ?case by simp
next
  case (Cons x xs)
  from Cons.prems have "topo ps (insert x R) xs" and "x \<notin> R" by simp_all
  with Cons.IH [of "insert x R"] show ?case by auto
qed

lemma closed_reach:
  "(d, y) \<in> (dep_rel ps)\<^sup>* \<Longrightarrow> closed ps R \<Longrightarrow> d \<in> R \<Longrightarrow> y \<in> R"
  by (induction rule: rtrancl_induct) (auto simp: closed_def dep_rel_def)

section \<open>What a resolution that returns has computed\<close>

lemma resolve_success:
  "resolveDependencies ps x R V = Inr (ord, R') \<Longrightarrow> closed ps R \<Longrightarrow>
     R' = R \<union> set ord \<and> topo ps R ord \<and> x \<in> R' \<and> set ord \<inter> V = {}
     \<and> set ord \<subseteq> (dep_rel ps)\<^sup>* `` {x}"
  "resolveDeps ps ds acc R V = Inr (ord, R') \<Longrightarrow> closed ps R \<Longrightarrow>
     (\<exists>sub. ord = acc @ sub \<and> R' = R \<union> set sub \<and> topo ps R sub \<and> set ds \<subseteq> R'
        \<and> set sub \<inter> V = {} \<and> set sub \<subseteq> (dep_rel ps)\<^sup>* `` set ds)"
proof (induction ps x R V and ps ds acc R V arbitrary: ord R' and ord R'
    rule: resolveDependencies_resolveDeps.induct)
  case (1 ps patchId resolved visiting)
  show ?case
  proof (cases "patchId \<in> resolved")
    case True
    with "1.prems" show ?thesis by simp
  next
    case notres: False
    with "1.prems" have notvis: "patchId \<notin> visiting"
      by (auto split: if_splits)
    from "1.prems" notres notvis obtain patch where
      fp: "findPatch ps patchId = Some patch"
      by (auto split: option.splits)
    from "1.prems" notres notvis fp obtain order res1 where
      rd: "resolveDeps ps (dependencies patch) [] resolved (insert patchId visiting) = Inr (order, res1)"
      and ord: "ord = order @ [patchId]" and R': "R' = insert patchId res1"
      by (auto split: sum.splits)
    from "1.IH" [OF notres notvis fp rd "1.prems"(2)] obtain sub where
      sub: "order = [] @ sub" "res1 = resolved \<union> set sub" "topo ps resolved sub"
        "set (dependencies patch) \<subseteq> res1" "set sub \<inter> insert patchId visiting = {}"
        "set sub \<subseteq> (dep_rel ps)\<^sup>* `` set (dependencies patch)"
      by blast
    have decl: "patchId \<in> declared ps"
      using findPatch_Some [OF fp] by (auto simp: declared_def)
    have deps: "deps_of ps patchId = dependencies patch"
      by (simp add: deps_of_def fp)
    have t: "topo ps resolved (sub @ [patchId])"
      using sub notres decl deps by (auto simp: topo_append)
    have "set sub \<subseteq> (dep_rel ps)\<^sup>* `` {patchId}"
    proof
      fix y assume "y \<in> set sub"
      with sub(6) obtain d where "d \<in> set (dependencies patch)" "(d, y) \<in> (dep_rel ps)\<^sup>*"
        by auto
      moreover from this have "(patchId, d) \<in> dep_rel ps"
        by (simp add: dep_rel_def deps)
      ultimately show "y \<in> (dep_rel ps)\<^sup>* `` {patchId}"
        by (auto intro: converse_rtrancl_into_rtrancl)
    qed
    with sub t ord R' notvis show ?thesis by auto
  qed
next
  case (2 ps order resolved visiting)
  then show ?case by simp
next
  case (3 ps depId rest order resolved visiting)
  from "3.prems" obtain sub1 res1 where
    r1: "resolveDependencies ps depId resolved visiting = Inr (sub1, res1)"
    and r2: "resolveDeps ps rest (order @ sub1) res1 visiting = Inr (ord, R')"
    by (auto split: sum.splits)
  from "3.IH"(1) [OF r1 "3.prems"(2)] have
    h1: "res1 = resolved \<union> set sub1" "topo ps resolved sub1" "depId \<in> res1"
      "set sub1 \<inter> visiting = {}" "set sub1 \<subseteq> (dep_rel ps)\<^sup>* `` {depId}"
    by auto
  have c1: "closed ps res1"
    using h1 topo_closed "3.prems"(2) by simp
  from "3.IH"(2) [OF r1 refl r2 c1] obtain sub2 where
    h2: "ord = (order @ sub1) @ sub2" "R' = res1 \<union> set sub2" "topo ps res1 sub2"
      "set rest \<subseteq> R'" "set sub2 \<inter> visiting = {}"
      "set sub2 \<subseteq> (dep_rel ps)\<^sup>* `` set rest"
    by blast
  have "topo ps resolved (sub1 @ sub2)"
    using h1 h2 by (simp add: topo_append)
  moreover have "set (sub1 @ sub2) \<subseteq> (dep_rel ps)\<^sup>* `` set (depId # rest)"
    using h1(5) h2(6) by auto
  ultimately show ?case
    using h1 h2 by (intro exI [of _ "sub1 @ sub2"]) auto
qed

section \<open>What a resolution that fails reports\<close>

lemma resolve_failure:
  "resolveDependencies ps x R V = Inl e \<Longrightarrow>
     (x, error_id e) \<in> (dep_rel ps)\<^sup>* \<and>
     (case e of CircularDependency y \<Rightarrow> y \<in> V \<or> (y, y) \<in> (dep_rel ps)\<^sup>+
      | PatchNotFound y \<Rightarrow> y \<notin> declared ps)"
  "resolveDeps ps ds acc R V = Inl e \<Longrightarrow>
     (\<exists>d\<in>set ds. (d, error_id e) \<in> (dep_rel ps)\<^sup>*) \<and>
     (case e of CircularDependency y \<Rightarrow> y \<in> V \<or> (y, y) \<in> (dep_rel ps)\<^sup>+
      | PatchNotFound y \<Rightarrow> y \<notin> declared ps)"
proof (induction ps x R V and ps ds acc R V arbitrary: e and e
    rule: resolveDependencies_resolveDeps.induct)
  case (1 ps patchId resolved visiting)
  from "1.prems" have notres: "patchId \<notin> resolved"
    by (auto split: if_splits)
  show ?case
  proof (cases "patchId \<in> visiting")
    case True
    with "1.prems" notres show ?thesis by auto
  next
    case notvis: False
    show ?thesis
    proof (cases "findPatch ps patchId")
      case None
      with "1.prems" notres notvis show ?thesis
        by (auto simp: findPatch_None)
    next
      case (Some patch)
      with "1.prems" notres notvis have
        rd: "resolveDeps ps (dependencies patch) [] resolved (insert patchId visiting) = Inl e"
        by (auto split: sum.splits)
      from "1.IH" [OF notres notvis Some rd] obtain d where
        d: "d \<in> set (dependencies patch)" "(d, error_id e) \<in> (dep_rel ps)\<^sup>*"
        and c: "case e of CircularDependency y \<Rightarrow> y \<in> insert patchId visiting \<or> (y, y) \<in> (dep_rel ps)\<^sup>+
                 | PatchNotFound y \<Rightarrow> y \<notin> declared ps"
        by blast
      have edge: "(patchId, d) \<in> dep_rel ps"
        using d(1) Some by (simp add: dep_rel_def deps_of_def)
      have reach: "(patchId, error_id e) \<in> (dep_rel ps)\<^sup>+"
        using edge d(2) by (rule rtrancl_into_trancl2)
      show ?thesis
      proof (cases e)
        case (CircularDependency y)
        with c reach show ?thesis by auto
      next
        case (PatchNotFound y)
        with c reach show ?thesis by auto
      qed
    qed
  qed
next
  case (2 ps order resolved visiting)
  then show ?case by simp
next
  case (3 ps depId rest order resolved visiting)
  show ?case
  proof (cases "resolveDependencies ps depId resolved visiting")
    case (Inl e')
    with "3.prems" have "e' = e" by simp
    with "3.IH"(1) [of e] Inl show ?thesis by auto
  next
    case (Inr r)
    obtain sub res1 where r: "r = (sub, res1)" by (cases r)
    with Inr "3.prems" have "resolveDeps ps rest (order @ sub) res1 visiting = Inl e"
      by simp
    from "3.IH"(2) [OF Inr [unfolded r] refl this] show ?thesis by auto
  qed
qed

lemma pushNew_append:
  "distinct deps \<Longrightarrow> set deps \<inter> set acc = {} \<Longrightarrow> pushNew acc deps = acc @ deps"
  by (induction deps arbitrary: acc) auto

lemma applyOrder_success:
  "resolveApplyOrder ps req R acc = Inr ord \<Longrightarrow> closed ps R \<Longrightarrow> set acc = R \<Longrightarrow>
     \<exists>sub. ord = acc @ sub \<and> topo ps R sub \<and> patch_id ` set req \<subseteq> R \<union> set sub
       \<and> set sub \<subseteq> (dep_rel ps)\<^sup>* `` (patch_id ` set req)"
proof (induction req arbitrary: R acc)
  case Nil
  then show ?case by simp
next
  case (Cons p req)
  from Cons.prems(1) obtain deps R1 where
    r1: "resolveDependencies ps (patch_id p) R {} = Inr (deps, R1)"
    and r2: "resolveApplyOrder ps req R1 (pushNew acc deps) = Inr ord"
    by (auto split: sum.splits)
  from resolve_success(1) [OF r1 Cons.prems(2)] have
    h1: "R1 = R \<union> set deps" "topo ps R deps" "patch_id p \<in> R1"
      "set deps \<subseteq> (dep_rel ps)\<^sup>* `` {patch_id p}"
    by auto
  from topo_distinct [OF h1(2)] Cons.prems(3) have
    pn: "pushNew acc deps = acc @ deps"
    by (intro pushNew_append) auto
  have c1: "closed ps R1"
    using h1 topo_closed Cons.prems(2) by simp
  have "set (pushNew acc deps) = R1"
    using pn h1(1) Cons.prems(3) by auto
  from Cons.IH [OF r2 c1 this] obtain sub2 where
    h2: "ord = pushNew acc deps @ sub2" "topo ps R1 sub2"
      "patch_id ` set req \<subseteq> R1 \<union> set sub2"
      "set sub2 \<subseteq> (dep_rel ps)\<^sup>* `` (patch_id ` set req)"
    by blast
  have "topo ps R (deps @ sub2)"
    using h1 h2 by (simp add: topo_append)
  moreover have "set (deps @ sub2) \<subseteq> (dep_rel ps)\<^sup>* `` (patch_id ` set (p # req))"
    using h1(4) h2(4) by fastforce
  ultimately show ?case
    using h1 h2 pn by (intro exI [of _ "deps @ sub2"]) auto
qed

lemma applyOrder_failure:
  "resolveApplyOrder ps req R acc = Inl e \<Longrightarrow>
     error_id e \<in> reachable ps req \<and>
     (case e of CircularDependency y \<Rightarrow> (y, y) \<in> (dep_rel ps)\<^sup>+
      | PatchNotFound y \<Rightarrow> y \<notin> declared ps)"
proof (induction req arbitrary: R acc)
  case Nil
  then show ?case by simp
next
  case (Cons p req)
  show ?case
  proof (cases "resolveDependencies ps (patch_id p) R {}")
    case (Inl e')
    with Cons.prems have "e' = e" by simp
    with resolve_failure(1) [of ps "patch_id p" R "{}" e] Inl show ?thesis
      by (cases e) (auto simp: reachable_def)
  next
    case (Inr r)
    obtain deps R1 where "r = (deps, R1)" by (cases r)
    with Inr Cons.prems have "resolveApplyOrder ps req R1 (pushNew acc deps) = Inl e"
      by simp
    from Cons.IH [OF this] show ?thesis
      by (cases e) (auto simp: reachable_def)
  qed
qed

lemma topo_before:
  "topo ps R xs \<Longrightarrow> j < length xs \<Longrightarrow> set (deps_of ps (xs ! j)) \<subseteq> R \<union> set (take j xs)"
proof (induction xs arbitrary: R j)
  case Nil
  then show ?case by simp
next
  case (Cons x xs)
  show ?case
  proof (cases j)
    case 0
    with Cons.prems show ?thesis by simp
  next
    case (Suc k)
    with Cons.prems have "topo ps (insert x R) xs" "k < length xs" by simp_all
    from Cons.IH [OF this] Suc show ?thesis by auto
  qed
qed

lemma topo_acyclic:
  "topo ps R xs \<Longrightarrow> closed ps R \<Longrightarrow> \<forall>x\<in>R. (x, x) \<notin> (dep_rel ps)\<^sup>+ \<Longrightarrow>
     \<forall>x\<in>R \<union> set xs. (x, x) \<notin> (dep_rel ps)\<^sup>+"
proof (induction xs arbitrary: R)
  case Nil
  then show ?case by simp
next
  case (Cons z zs)
  from Cons.prems(1) have z: "z \<notin> R" "z \<in> declared ps" "set (deps_of ps z) \<subseteq> R"
    and t: "topo ps (insert z R) zs" by simp_all
  have c: "closed ps (insert z R)"
    using Cons.prems(2) z unfolding closed_def by auto
  have "(z, z) \<notin> (dep_rel ps)\<^sup>+"
  proof
    assume "(z, z) \<in> (dep_rel ps)\<^sup>+"
    then obtain d where "(z, d) \<in> dep_rel ps" "(d, z) \<in> (dep_rel ps)\<^sup>*"
      by (auto dest: tranclD)
    moreover from this z(3) have "d \<in> R" by (auto simp: dep_rel_def)
    ultimately have "z \<in> R" using closed_reach Cons.prems(2) by blast
    with z(1) show False by simp
  qed
  with Cons.prems(3) have "\<forall>x\<in>insert z R. (x, x) \<notin> (dep_rel ps)\<^sup>+" by simp
  from Cons.IH [OF t c this] show ?case by simp
qed

lemma topo_declared: "topo ps R xs \<Longrightarrow> set xs \<subseteq> declared ps"
  by (induction xs arbitrary: R) auto

lemma deps_of_unique:
  "distinct (map patch_id ps) \<Longrightarrow> p \<in> set ps \<Longrightarrow> deps_of ps (patch_id p) = dependencies p"
proof (induction ps)
  case Nil
  then show ?case by simp
next
  case (Cons q ps)
  show ?case
  proof (cases "p = q")
    case True
    then show ?thesis by (simp add: deps_of_def findPatch_def)
  next
    case False
    with Cons.prems have "p \<in> set ps" and "patch_id q \<noteq> patch_id p" by auto
    with Cons show ?thesis by (simp add: deps_of_def findPatch_def)
  qed
qed

lemma applyOrder_result:
  assumes "resolveApplyOrder ps req {} [] = Inr order"
  shows "topo ps {} order \<and> set order = reachable ps req"
proof -
  have c0: "closed ps {}" by (simp add: closed_def)
  from applyOrder_success [OF assms c0] have
    t: "topo ps {} order" and req: "patch_id ` set req \<subseteq> set order"
    and sub: "set order \<subseteq> reachable ps req"
    by (auto simp: reachable_def)
  from topo_closed [OF t c0] have c: "closed ps (set order)" by simp
  have "reachable ps req \<subseteq> set order"
    using closed_reach [OF _ c] req by (auto simp: reachable_def)
  with sub t show ?thesis by auto
qed

section \<open>The apply order\<close>

lemma example_registry_acyclic: "acyclic (dep_rel example_registry)"
proof -
  have "dep_rel example_registry \<subseteq> measure (\<lambda>x. if x = ''A'' then 1 else 0)"
    by (auto simp: dep_rel_def deps_of_def findPatch_def example_registry_def
          example_patch_def split: if_splits)
  then show ?thesis
    by (rule wf_acyclic [OF wf_subset [OF wf_measure]])
qed

lemma example_toApply:
  "patchesToApply example_config default_options = [example_patch ''B'' True [''A'']]"
  by (simp add: patchesToApply_def selected_def example_config_def default_options_def
        example_registry_def example_patch_def)

lemma example_order:
  "resolveApplyOrder example_registry [example_patch ''B'' True [''A'']] {} []
     = Inr [''A'', ''B'']"
  by (simp add: example_registry_def example_patch_def findPatch_def)

text \<open>
  Claim C1. When the dependency graph of the configuration is acyclic, the order that
  \<open>applyPatches\<close> accumulates from \<open>resolveDependencies\<close> for any list of requested entries
  has no duplicate id, contains exactly the ids reachable from the requested ids through
  dependencies (whether enabled or not, whatever their category), and holds every
  dependency of each of its ids at a strictly smaller index; when the ids of the
  configuration are unique, these are the dependencies listed by the entry itself. The only
  way for the resolution of an acyclic graph not to return an order is a reachable id that
  no entry declares.
\<close>

theorem apply_order_correct:
  assumes "acyclic (dep_rel ps)"
  shows "case resolveApplyOrder ps req {} [] of
           Inr order \<Rightarrow>
             distinct order \<and> set order = reachable ps req \<and>
             (\<forall>x\<in>set order. \<forall>d\<in>set (deps_of ps x).
                \<exists>i j. i < j \<and> j < length order \<and> order ! i = d \<and> order ! j = x) \<and>
             (distinct (map patch_id ps) \<longrightarrow>
                (\<forall>p\<in>set ps. patch_id p \<in> set order \<longrightarrow>
                   (\<forall>d\<in>set (dependencies p).
                      \<exists>i j. i < j \<and> j < length order \<and> order ! i = d
                        \<and> order ! j = patch_id p)))
         | Inl e \<Rightarrow> \<exists>y. e = PatchNotFound y \<and> y \<in> reachable ps req \<and> y \<notin> declared ps"
proof (cases "resolveApplyOrder ps req {} []")
  case (Inl e)
  from applyOrder_failure [OF Inl] assms show ?thesis
    unfolding Inl by (cases e) (auto simp: acyclic_def)
next
  case (Inr order)
  from applyOrder_result [OF Inr] have
    t: "topo ps {} order" and s: "set order = reachable ps req"
    by simp_all
  from topo_distinct [OF t] have d: "distinct order" by simp
  have b: "\<exists>i j. i < j \<and> j < length order \<and> order ! i = d \<and> order ! j = x"
    if "x \<in> set order" "d \<in> set (deps_of ps x)" for x d
  proof -
    from that(1) obtain j where j: "j < length order" "order ! j = x"
      by (auto simp: in_set_conv_nth)
    from topo_before [OF t j(1)] j(2) that(2) have "d \<in> set (take j order)" by auto
    then obtain i where "i < j" "order ! i = d"
      using j(1) by (auto simp: in_set_conv_nth)
    with j show ?thesis by blast
  qed
  have u: "\<exists>i j. i < j \<and> j < length order \<and> order ! i = d \<and> order ! j = patch_id p"
    if "distinct (map patch_id ps)" "p \<in> set ps" "patch_id p \<in> set order"
      "d \<in> set (dependencies p)" for p d
    using b [OF that(3)] deps_of_unique [OF that(1,2)] that(4) by simp
  from d s b u show ?thesis unfolding Inr by simp
qed

theorem apply_order_correct_witness:
  "acyclic (dep_rel example_registry) \<and>
   resolveApplyOrder example_registry (patchesToApply example_config default_options) {} []
     = Inr [''A'', ''B''] \<and>
   reachable example_registry (patchesToApply example_config default_options)
     = {''A'', ''B''}"
  using apply_order_correct [OF example_registry_acyclic,
      of "patchesToApply example_config default_options"]
    example_order example_registry_acyclic
  by (auto simp: example_toApply)

section \<open>Termination and recursion depth\<close>

lemma depth_enough:
  "card (declared ps - V) \<le> n \<Longrightarrow>
     resolveDependencies_depth n ps x R V = Some (resolveDependencies ps x R V)"
  "card (declared ps - V) \<le> n \<Longrightarrow>
     resolveDeps_depth n ps ds acc R V = Some (resolveDeps ps ds acc R V)"
proof (induction ps x R V and ps ds acc R V arbitrary: n and n
    rule: resolveDependencies_resolveDeps.induct)
  case (1 ps patchId resolved visiting)
  show ?case
  proof (cases "patchId \<in> resolved \<or> patchId \<in> visiting \<or> findPatch ps patchId = None")
    case True
    then show ?thesis by auto
  next
    case False
    then obtain patch where fp: "findPatch ps patchId = Some patch"
      and nr: "patchId \<notin> resolved" and nv: "patchId \<notin> visiting"
      by auto
    have mem: "patchId \<in> declared ps - visiting"
      using findPatch_Some [OF fp] nv by (auto simp: declared_def)
    have fin: "finite (declared ps - visiting)"
      by (simp add: declared_def)
    have eq: "declared ps - insert patchId visiting = (declared ps - visiting) - {patchId}"
      by auto
    from mem fin have pos: "0 < card (declared ps - visiting)"
      by (auto simp: card_gt_0_iff)
    with "1.prems" obtain m where n: "n = Suc m" by (cases n) auto
    have "card (declared ps - insert patchId visiting) \<le> m"
      using "1.prems" n mem fin unfolding eq by simp
    from "1.IH" [OF nr nv fp this] show ?thesis
      using nr nv fp n by (simp split: sum.splits)
  qed
next
  case (2 ps order resolved visiting)
  then show ?case by simp
next
  case (3 ps depId rest order resolved visiting)
  from "3.IH"(1) [OF "3.prems"] have
    h: "resolveDependencies_depth n ps depId resolved visiting
          = Some (resolveDependencies ps depId resolved visiting)" .
  show ?case
  proof (cases "resolveDependencies ps depId resolved visiting")
    case (Inl e)
    with h show ?thesis by simp
  next
    case (Inr r)
    obtain sub res1 where r: "r = (sub, res1)" by (cases r)
    from "3.IH"(2) [OF Inr [unfolded r] refl "3.prems"] h Inr r show ?thesis by simp
  qed
qed

text \<open>
  Claim C10. \<open>resolveDependencies\<close> terminates, and its recursion is no deeper than the
  number of declared ids: a call returns at once when the id is resolved, fails at once when
  the id is being visited or is not declared, and otherwise recurses with a visiting set that
  holds one more declared id. So a depth bound of the number of declared ids outside
  \<open>visiting\<close> (at most the number of declared ids) is never exhausted, and the bounded
  function returns what \<open>resolveDependencies\<close> returns.
\<close>

theorem resolveDependencies_terminates:
  "(card (declared ps - visiting) \<le> n \<longrightarrow>
      resolveDependencies_depth n ps patchId resolved visiting
        = Some (resolveDependencies ps patchId resolved visiting)) \<and>
   resolveDependencies_depth (card (declared ps)) ps patchId resolved visiting
     = Some (resolveDependencies ps patchId resolved visiting) \<and>
   (patchId \<in> resolved \<longrightarrow>
      resolveDependencies ps patchId resolved visiting = Inr ([], resolved)) \<and>
   (patchId \<notin> resolved \<and> patchId \<in> visiting \<longrightarrow>
      resolveDependencies ps patchId resolved visiting = Inl (CircularDependency patchId)) \<and>
   (patchId \<notin> resolved \<and> patchId \<notin> visiting \<and> patchId \<notin> declared ps \<longrightarrow>
      resolveDependencies ps patchId resolved visiting = Inl (PatchNotFound patchId)) \<and>
   (patchId \<notin> resolved \<and> patchId \<notin> visiting \<and> patchId \<in> declared ps \<longrightarrow>
      card (declared ps - insert patchId visiting) < card (declared ps - visiting))"
proof -
  have "card (declared ps - visiting) \<le> card (declared ps)"
    by (intro card_mono) (auto simp: declared_def)
  then have "resolveDependencies_depth (card (declared ps)) ps patchId resolved visiting
     = Some (resolveDependencies ps patchId resolved visiting)"
    by (rule depth_enough(1))
  moreover have "card (declared ps - insert patchId visiting) < card (declared ps - visiting)"
    if "patchId \<notin> visiting" "patchId \<in> declared ps"
  proof -
    have "declared ps - insert patchId visiting = (declared ps - visiting) - {patchId}"
      by auto
    moreover have "finite (declared ps - visiting)" by (simp add: declared_def)
    ultimately show ?thesis using that
      by (metis DiffI card_Diff1_less)
  qed
  ultimately show ?thesis
    using depth_enough(1) [of ps visiting n patchId resolved]
    by (auto simp: findPatch_None [symmetric])
qed

theorem resolveDependencies_terminates_witness:
  "card (declared example_registry - {}) \<le> 3 \<and>
   resolveDependencies_depth 3 example_registry ''B'' {} {} = Some (Inr ([''A'', ''B''], {''A'', ''B''})) \<and>
   resolveDependencies example_registry ''B'' {} {} = Inr ([''A'', ''B''], {''A'', ''B''})"
proof -
  have c: "card (declared example_registry - {}) \<le> 3"
    by (simp add: declared_def example_registry_def example_patch_def)
  have "resolveDependencies example_registry ''B'' {} {} = Inr ([''A'', ''B''], {''A'', ''B''})"
    by (auto simp: example_registry_def example_patch_def findPatch_def)
  with c resolveDependencies_terminates [of example_registry "{}" 3 "''B''" "{}"]
  show ?thesis by simp
qed

section \<open>Cycles and undeclared ids\<close>

lemma example_deps_of:
  "deps_of (example_patch i en ds # ps) x = (if x = i then ds else deps_of ps x)"
  by (simp add: deps_of_def findPatch_def example_patch_def)

lemma deps_of_Nil: "deps_of [] x = []"
  by (simp add: deps_of_def findPatch_def)

lemma no_deps_no_cycle: "deps_of ps x = [] \<Longrightarrow> (x, x) \<notin> (dep_rel ps)\<^sup>+"
  by (auto dest!: tranclD simp: dep_rel_def)

text \<open>
  Claim C4, as amended. When a cycle of the dependency graph is reachable from a requested
  id, resolution fails and returns no order. The error names an id reachable from the
  request: either the cycle error, and then the id lies on a cycle, or the not-found error,
  and then the id is undeclared. When every reachable id is declared it is the cycle
  error.
\<close>

theorem cycle_rejected:
  assumes "x \<in> reachable ps req" and "(x, x) \<in> (dep_rel ps)\<^sup>+"
  shows "\<exists>e. resolveApplyOrder ps req {} [] = Inl e \<and> error_id e \<in> reachable ps req \<and>
           (case e of CircularDependency y \<Rightarrow> (y, y) \<in> (dep_rel ps)\<^sup>+
            | PatchNotFound y \<Rightarrow> y \<notin> declared ps) \<and>
           (reachable ps req \<subseteq> declared ps \<longrightarrow> e = CircularDependency (error_id e))"
proof (cases "resolveApplyOrder ps req {} []")
  case (Inr order)
  from applyOrder_result [OF Inr] have t: "topo ps {} order" and s: "set order = reachable ps req"
    by simp_all
  have "\<forall>y\<in>{} \<union> set order. (y, y) \<notin> (dep_rel ps)\<^sup>+"
    by (rule topo_acyclic [OF t]) (simp_all add: closed_def)
  with s assms show ?thesis by auto
next
  case (Inl e)
  from applyOrder_failure [OF Inl] show ?thesis
    unfolding Inl by (cases e) auto
qed

theorem cycle_rejected_witness:
  "''A'' \<in> reachable cyclic_registry cyclic_registry \<and>
   (''A'', ''A'') \<in> (dep_rel cyclic_registry)\<^sup>+ \<and>
   resolveApplyOrder cyclic_registry cyclic_registry {} [] = Inl (CircularDependency ''A'')"
proof -
  have ab: "(''A'', ''B'') \<in> dep_rel cyclic_registry"
    and ba: "(''B'', ''A'') \<in> dep_rel cyclic_registry"
    by (simp_all add: dep_rel_def cyclic_registry_def example_deps_of)
  then have cyc: "(''A'', ''A'') \<in> (dep_rel cyclic_registry)\<^sup>+"
    by (meson trancl.intros)
  have r: "''A'' \<in> reachable cyclic_registry cyclic_registry"
    by (auto simp: reachable_def cyclic_registry_def example_patch_def)
  have "resolveApplyOrder cyclic_registry cyclic_registry {} [] = Inl (CircularDependency ''A'')"
    by (simp add: cyclic_registry_def example_patch_def findPatch_def)
  with cycle_rejected [OF r cyc] r cyc show ?thesis by simp
qed

theorem cycle_error_names_noncycle_counterexample:
  "''A'' \<in> reachable cyclic_dangling_registry cyclic_dangling_registry \<and>
   (''A'', ''A'') \<in> (dep_rel cyclic_dangling_registry)\<^sup>+ \<and>
   resolveApplyOrder cyclic_dangling_registry cyclic_dangling_registry {} []
     = Inl (PatchNotFound ''X'') \<and>
   (''X'', ''X'') \<notin> (dep_rel cyclic_dangling_registry)\<^sup>+"
proof -
  have ab: "(''A'', ''B'') \<in> dep_rel cyclic_dangling_registry"
    and ba: "(''B'', ''A'') \<in> dep_rel cyclic_dangling_registry"
    by (simp_all add: dep_rel_def cyclic_dangling_registry_def example_deps_of)
  then have cyc: "(''A'', ''A'') \<in> (dep_rel cyclic_dangling_registry)\<^sup>+"
    by (meson trancl.intros)
  have r: "''A'' \<in> reachable cyclic_dangling_registry cyclic_dangling_registry"
    by (auto simp: reachable_def cyclic_dangling_registry_def example_patch_def)
  have e: "resolveApplyOrder cyclic_dangling_registry cyclic_dangling_registry {} []
     = Inl (PatchNotFound ''X'')"
    by (simp add: cyclic_dangling_registry_def example_patch_def findPatch_def)
  have "deps_of cyclic_dangling_registry ''X'' = []"
    by (simp add: cyclic_dangling_registry_def example_deps_of deps_of_Nil)
  then have "(''X'', ''X'') \<notin> (dep_rel cyclic_dangling_registry)\<^sup>+"
    by (rule no_deps_no_cycle)
  with r cyc e show ?thesis by simp
qed

text \<open>
  Claim C5, as amended. A call of \<open>resolveDependencies\<close> on an id that no entry declares
  (and that is in neither marker set, which hold declared ids only) fails with the
  not-found error naming that id, whether the id was requested or met as a dependency; this
  error is not the cycle error. A resolution that fails with the not-found error names an
  undeclared id reachable from the request, and a resolution from which an undeclared id is
  reachable fails.
\<close>

theorem undeclared_id_rejected:
  "(y \<notin> declared ps \<and> y \<notin> resolved \<and> y \<notin> visiting \<longrightarrow>
      resolveDependencies ps y resolved visiting = Inl (PatchNotFound y) \<and>
      resolveDeps ps (y # rest) order resolved visiting = Inl (PatchNotFound y)) \<and>
   PatchNotFound y \<noteq> CircularDependency z \<and>
   (resolveApplyOrder ps req {} [] = Inl (PatchNotFound y) \<longrightarrow>
      y \<notin> declared ps \<and> y \<in> reachable ps req) \<and>
   (y \<notin> declared ps \<and> y \<in> reachable ps req \<longrightarrow>
      (\<exists>e. resolveApplyOrder ps req {} [] = Inl e))"
proof -
  have a: "resolveDependencies ps y resolved visiting = Inl (PatchNotFound y)"
    if "y \<notin> declared ps" "y \<notin> resolved" "y \<notin> visiting"
    using that by (simp add: findPatch_None [symmetric])
  have c: "y \<notin> declared ps \<and> y \<in> reachable ps req"
    if "resolveApplyOrder ps req {} [] = Inl (PatchNotFound y)"
    using applyOrder_failure [OF that] by simp
  have d: "\<exists>e. resolveApplyOrder ps req {} [] = Inl e"
    if "y \<notin> declared ps" "y \<in> reachable ps req"
  proof (cases "resolveApplyOrder ps req {} []")
    case (Inl e)
    then show ?thesis by simp
  next
    case (Inr ord)
    from applyOrder_result [OF Inr] have t: "topo ps {} ord" and s: "set ord = reachable ps req"
      by simp_all
    have "closed ps ({} \<union> set ord)"
      by (rule topo_closed [OF t]) (simp add: closed_def)
    with s that show ?thesis by (auto simp: closed_def)
  qed
  from a c d show ?thesis by auto
qed

theorem undeclared_id_rejected_witness:
  "''X'' \<notin> declared cyclic_dangling_registry \<and>
   resolveDependencies cyclic_dangling_registry ''X'' {} {''A''} = Inl (PatchNotFound ''X'') \<and>
   resolveApplyOrder cyclic_dangling_registry cyclic_dangling_registry {} []
     = Inl (PatchNotFound ''X'') \<and>
   ''X'' \<in> reachable cyclic_dangling_registry cyclic_dangling_registry"
proof -
  have u: "''X'' \<notin> declared cyclic_dangling_registry"
    by (simp add: declared_def cyclic_dangling_registry_def example_patch_def)
  have e: "resolveApplyOrder cyclic_dangling_registry cyclic_dangling_registry {} []
     = Inl (PatchNotFound ''X'')"
    by (simp add: cyclic_dangling_registry_def example_patch_def findPatch_def)
  from u e undeclared_id_rejected [of "''X''" cyclic_dangling_registry "{}" "{''A''}" "[]" "[]"
      "''A''" cyclic_dangling_registry]
  show ?thesis by simp
qed

theorem undeclared_dependency_unreported_counterexample:
  "''X'' \<in> set (dependencies (example_patch ''C'' False [''X''])) \<and>
   example_patch ''C'' False [''X''] \<in> set dangling_registry \<and>
   ''X'' \<notin> declared dangling_registry \<and>
   resolveApplyOrder dangling_registry
     (patchesToApply \<lparr>patches = dangling_registry, categories = []\<rparr> default_options) {} []
     = Inr [''A'']"
  by (simp add: dangling_registry_def example_patch_def declared_def findPatch_def
        patchesToApply_def selected_def default_options_def)

section \<open>The verifier\<close>








section \<open>The applier\<close>

lemma example_checks:
  "checkPatchApplied example_env stale_patch (fs satisfied_world)"
  "\<not> checkPatchApplied example_env stale_patch (fs example_world)"
  "\<not> checkPatchApplied example_env stale_patch (fs broken_world)"
  "\<not> checkPatchApplied failing_env stale_patch (fs example_world)"
  by (simp_all add: checkPatchApplied_def stale_patch_def example_env_def failing_env_def
        satisfied_world_def broken_world_def example_world_def example_fs_def grep_q_def example_grep_def)

lemma applyPatch_success_runs_git:
  assumes "\<not> checkPatchApplied e patch (fs w)" and "fst (applyPatch e patch w)"
  shows "git_calls (snd (applyPatch e patch w)) \<noteq> git_calls w"
  using assms
  by (auto simp: applyPatch_def applyPatch_catch_def console_error_def Let_def
        split: if_splits prod.splits)

lemma strict_first:
  "applyPatch strict_env stale_patch example_world =
     (True, example_world\<lparr>git_calls := [ApplyCheck ''/patches/P.patch'', Apply ''/patches/P.patch''],
               fs := example_fs(''/oc/target'' := File ''oldnew'')\<rparr>)"
  by (simp add: applyPatch_def checkPatchApplied_def stale_patch_def strict_env_def
        example_env_def example_world_def example_fs_def grep_q_def example_grep_def
        existsSync_def strict_git_apply_check_def strict_git_apply_def Let_def)

lemma strict_second:
  "fst (applyPatch strict_env stale_patch
          (example_world\<lparr>git_calls := [ApplyCheck ''/patches/P.patch'', Apply ''/patches/P.patch''],
               fs := example_fs(''/oc/target'' := File ''oldnew'')\<rparr>)) = False"
  by (simp add: applyPatch_def applyPatch_catch_def checkPatchApplied_def stale_patch_def
        strict_env_def example_env_def example_world_def example_fs_def grep_q_def
        example_grep_def existsSync_def strict_git_apply_check_def Let_def)

lemma example_first:
  "applyPatch example_env stale_patch example_world =
     (True, example_world\<lparr>git_calls := [ApplyCheck ''/patches/P.patch'', Apply ''/patches/P.patch''],
               fs := example_fs(''/oc/target'' := File ''oldnew'')\<rparr>)"
  by (simp add: applyPatch_def checkPatchApplied_def stale_patch_def
        example_env_def example_world_def example_fs_def grep_q_def example_grep_def
        existsSync_def example_git_apply_check_def example_git_apply_def Let_def)

lemma example_second:
  "fs (snd (applyPatch example_env stale_patch
          (example_world\<lparr>git_calls := [ApplyCheck ''/patches/P.patch'', Apply ''/patches/P.patch''],
               fs := example_fs(''/oc/target'' := File ''oldnew'')\<rparr>))) ''/oc/target''
     = File ''oldnewnew''"
  by (simp add: applyPatch_def checkPatchApplied_def stale_patch_def
        example_env_def example_world_def example_fs_def grep_q_def example_grep_def
        existsSync_def example_git_apply_check_def example_git_apply_def Let_def)

text \<open>
  Claim C3, as amended. \<open>applyPatch\<close> returns success without running any \<open>git apply\<close>
  command exactly when the verifier finds the effect of the patch on the current tree, and
  then it leaves the world as it is: nothing is printed and no file changes. So the second
  of two calls in succession is such a no-op exactly when the verifier is satisfied on the
  tree that the first call left; this is the case when it was satisfied before the first
  call, and then both calls leave the same tree.
\<close>

theorem applyPatch_noop_iff:
  "(applyPatch e patch w = (True, w) \<longleftrightarrow> checkPatchApplied e patch (fs w)) \<and>
   (fst (applyPatch e patch w) \<and> git_calls (snd (applyPatch e patch w)) = git_calls w
      \<longleftrightarrow> checkPatchApplied e patch (fs w)) \<and>
   (case applyPatch e patch w of
      (r1, w1) \<Rightarrow>
        (applyPatch e patch w1 = (True, w1) \<longleftrightarrow> checkPatchApplied e patch (fs w1)) \<and>
        (checkPatchApplied e patch (fs w) \<longrightarrow>
           r1 \<and> w1 = w \<and> applyPatch e patch w1 = (True, w)))"
proof -
  have yes: "applyPatch e patch v = (True, v)" if "checkPatchApplied e patch (fs v)" for v
    using that by (simp add: applyPatch_def)
  have no: "applyPatch e patch v \<noteq> (True, v)" if "\<not> checkPatchApplied e patch (fs v)" for v
  proof
    assume a: "applyPatch e patch v = (True, v)"
    then have "fst (applyPatch e patch v)" by simp
    from applyPatch_success_runs_git [OF that this] a show False by simp
  qed
  have iff: "applyPatch e patch v = (True, v) \<longleftrightarrow> checkPatchApplied e patch (fs v)" for v
    using yes no by blast
  have git: "fst (applyPatch e patch w) \<and> git_calls (snd (applyPatch e patch w)) = git_calls w
      \<longleftrightarrow> checkPatchApplied e patch (fs w)"
    using yes [of w] applyPatch_success_runs_git [of e patch w] by auto
  obtain r1 w1 where p: "applyPatch e patch w = (r1, w1)" by (cases "applyPatch e patch w")
  have "r1 \<and> w1 = w \<and> applyPatch e patch w1 = (True, w)" if "checkPatchApplied e patch (fs w)"
    using yes [OF that] p by simp
  with iff [of w] iff [of w1] git p show ?thesis by simp
qed

theorem applyPatch_noop_iff_witness:
  "checkPatchApplied example_env stale_patch (fs satisfied_world) \<and>
   applyPatch example_env stale_patch satisfied_world = (True, satisfied_world) \<and>
   applyPatch example_env stale_patch (snd (applyPatch example_env stale_patch satisfied_world))
     = (True, satisfied_world)"
  using applyPatch_noop_iff [of example_env stale_patch satisfied_world] example_checks(1)
  by (auto split: prod.splits)

theorem second_apply_not_noop_counterexample:
  "applyPatch strict_env stale_patch example_world =
     (True, example_world\<lparr>git_calls := [ApplyCheck ''/patches/P.patch'', Apply ''/patches/P.patch''],
               fs := example_fs(''/oc/target'' := File ''oldnew'')\<rparr>) \<and>
   fst (applyPatch strict_env stale_patch
          (snd (applyPatch strict_env stale_patch example_world))) = False \<and>
   fs (snd (applyPatch example_env stale_patch example_world)) ''/oc/target''
     = File ''oldnew'' \<and>
   fs (snd (applyPatch example_env stale_patch
              (snd (applyPatch example_env stale_patch example_world)))) ''/oc/target''
     = File ''oldnewnew''"
  using strict_second example_second by (simp add: strict_first example_first)

text \<open>
  Claim C6. When the pre-check is unsatisfied, artifact and target directory exist, and
  either the dry run \<open>git apply --check\<close> or the real \<open>git apply\<close> exits with a non-zero
  code, \<open>applyPatch\<close> runs the verifier again on the tree the failed command left: if it is
  satisfied the result is success, otherwise the result is failure and the two diagnostic
  lines (the patch id and the exit code of the failed command) are written to the error
  output.
\<close>

theorem applyPatch_failure_rechecks:
  assumes "\<not> checkPatchApplied e patch (fs w)"
    and "existsSync (fs w) (join e (PATCHES_DIR e) (patch_file patch))"
    and "existsSync (fs w) (OPENCODE_DIR e)"
  shows "(git_apply_check e (OPENCODE_DIR e) (join e (PATCHES_DIR e) (patch_file patch)) (fs w) = c
            \<and> c \<noteq> 0 \<longrightarrow>
          applyPatch e patch w =
            (let w1 = w\<lparr>git_calls := git_calls w
                          @ [ApplyCheck (join e (PATCHES_DIR e) (patch_file patch))]\<rparr>
             in if checkPatchApplied e patch (fs w1) then (True, w1)
                else (False, w1\<lparr>stderr := stderr w1
                         @ [FailedToApplyPatch (patch_id patch), FailedWithExitCode c]\<rparr>))) \<and>
         (git_apply_check e (OPENCODE_DIR e) (join e (PATCHES_DIR e) (patch_file patch)) (fs w) = 0
            \<and> git_apply e (OPENCODE_DIR e) (join e (PATCHES_DIR e) (patch_file patch)) (fs w)
                = (c, f')
            \<and> c \<noteq> 0 \<longrightarrow>
          applyPatch e patch w =
            (let w2 = w\<lparr>git_calls := git_calls w
                          @ [ApplyCheck (join e (PATCHES_DIR e) (patch_file patch)),
                             Apply (join e (PATCHES_DIR e) (patch_file patch))],
                        fs := f'\<rparr>
             in if checkPatchApplied e patch f' then (True, w2)
                else (False, w2\<lparr>stderr := stderr w2
                         @ [FailedToApplyPatch (patch_id patch), FailedWithExitCode c]\<rparr>)))"
  using assms
  by (simp add: applyPatch_def applyPatch_catch_def console_error_def Let_def)

theorem applyPatch_failure_rechecks_witness:
  "\<not> checkPatchApplied example_env stale_patch (fs broken_world) \<and>
   existsSync (fs broken_world) ''/patches/P.patch'' \<and>
   existsSync (fs broken_world) ''/oc'' \<and>
   git_apply_check example_env ''/oc'' ''/patches/P.patch'' (fs broken_world) = 1 \<and>
   applyPatch example_env stale_patch broken_world =
     (False, broken_world\<lparr>git_calls := [ApplyCheck ''/patches/P.patch''],
                stderr := [FailedToApplyPatch ''P'', FailedWithExitCode 1]\<rparr>) \<and>
   \<not> checkPatchApplied failing_env stale_patch (fs example_world) \<and>
   git_apply_check failing_env ''/oc'' ''/patches/P.patch'' (fs example_world) = 0 \<and>
   fst (git_apply failing_env ''/oc'' ''/patches/P.patch'' (fs example_world)) = 1 \<and>
   fst (applyPatch failing_env stale_patch example_world) = True"
proof -
  have ex: "existsSync (fs broken_world) (join example_env (PATCHES_DIR example_env) (patch_file stale_patch))"
    "existsSync (fs broken_world) (OPENCODE_DIR example_env)"
    "existsSync (fs example_world) (join failing_env (PATCHES_DIR failing_env) (patch_file stale_patch))"
    "existsSync (fs example_world) (OPENCODE_DIR failing_env)"
    by (simp_all add: existsSync_def example_env_def failing_env_def stale_patch_def
          broken_world_def example_world_def example_fs_def)
  have c: "git_apply_check example_env ''/oc'' ''/patches/P.patch'' (fs broken_world) = 1"
    "git_apply_check failing_env ''/oc'' ''/patches/P.patch'' (fs example_world) = 0"
    "git_apply failing_env ''/oc'' ''/patches/P.patch'' (fs example_world)
       = (1, (fs example_world)(''/oc/target'' := File ''expected''))"
    by (simp_all add: example_env_def failing_env_def example_git_apply_check_def
          broken_world_def example_world_def example_fs_def)
  have v: "checkPatchApplied failing_env stale_patch
             ((fs example_world)(''/oc/target'' := File ''expected''))"
    by (simp add: checkPatchApplied_def stale_patch_def example_env_def failing_env_def
          grep_q_def example_grep_def)
  have p: "join example_env (PATCHES_DIR example_env) (patch_file stale_patch) = ''/patches/P.patch''"
    "OPENCODE_DIR example_env = ''/oc''"
    "join failing_env (PATCHES_DIR failing_env) (patch_file stale_patch) = ''/patches/P.patch''"
    "OPENCODE_DIR failing_env = ''/oc''" "patch_id stale_patch = ''P''"
    by (simp_all add: example_env_def failing_env_def stale_patch_def)
  have g: "git_calls broken_world = []" "stderr broken_world = []"
    by (simp_all add: broken_world_def example_world_def)
  from applyPatch_failure_rechecks [OF example_checks(3) ex(1,2), of 1 "fs broken_world"]
  have 1: "applyPatch example_env stale_patch broken_world =
     (False, broken_world\<lparr>git_calls := [ApplyCheck ''/patches/P.patch''],
                stderr := [FailedToApplyPatch ''P'', FailedWithExitCode 1]\<rparr>)"
    using c(1) example_checks(3) by (simp add: p g)
  from applyPatch_failure_rechecks [OF example_checks(4) ex(3,4), of 1
      "(fs example_world)(''/oc/target'' := File ''expected'')"]
  have 2: "fst (applyPatch failing_env stale_patch example_world) = True"
    using c(2,3) v by (simp add: p)
  from 1 2 c example_checks ex show ?thesis by (simp add: p)
qed

text \<open>
  Claim C2, as amended. When the pre-check is unsatisfied, artifact and target directory
  exist, and the dry run succeeds, \<open>applyPatch\<close> runs the real \<open>git apply\<close>; when that exits
  with code 0 the result is success and the verifier is not consulted again, whatever the
  resulting tree holds.
\<close>

theorem applyPatch_applies_without_recheck:
  assumes "\<not> checkPatchApplied e patch (fs w)"
    and "existsSync (fs w) (join e (PATCHES_DIR e) (patch_file patch))"
    and "existsSync (fs w) (OPENCODE_DIR e)"
    and "git_apply_check e (OPENCODE_DIR e) (join e (PATCHES_DIR e) (patch_file patch)) (fs w) = 0"
    and "git_apply e (OPENCODE_DIR e) (join e (PATCHES_DIR e) (patch_file patch)) (fs w) = (0, f')"
  shows "applyPatch e patch w =
           (True, w\<lparr>git_calls := git_calls w
                       @ [ApplyCheck (join e (PATCHES_DIR e) (patch_file patch)),
                          Apply (join e (PATCHES_DIR e) (patch_file patch))],
                    fs := f'\<rparr>)"
  using assms by (simp add: applyPatch_def Let_def)

lemma example_apply:
  "existsSync (fs example_world) (join example_env (PATCHES_DIR example_env) (patch_file stale_patch))"
  "existsSync (fs example_world) (OPENCODE_DIR example_env)"
  "git_apply_check example_env (OPENCODE_DIR example_env)
     (join example_env (PATCHES_DIR example_env) (patch_file stale_patch)) (fs example_world) = 0"
  "git_apply example_env (OPENCODE_DIR example_env)
     (join example_env (PATCHES_DIR example_env) (patch_file stale_patch)) (fs example_world)
     = (0, example_fs(''/oc/target'' := File ''oldnew''))"
  by (simp_all add: existsSync_def example_env_def stale_patch_def example_world_def
        example_fs_def example_git_apply_check_def example_git_apply_def)

theorem applyPatch_applies_without_recheck_witness:
  "\<not> checkPatchApplied example_env stale_patch (fs example_world) \<and>
   applyPatch example_env stale_patch example_world =
     (True, example_world\<lparr>git_calls := [ApplyCheck ''/patches/P.patch'', Apply ''/patches/P.patch''],
               fs := example_fs(''/oc/target'' := File ''oldnew'')\<rparr>)"
  using applyPatch_applies_without_recheck [OF example_checks(2) example_apply] example_checks(2)
  by (simp add: example_env_def stale_patch_def example_world_def)

theorem applied_but_unverified_counterexample:
  "\<not> checkPatchApplied example_env stale_patch (fs example_world) \<and>
   git_apply_check example_env ''/oc'' ''/patches/P.patch'' (fs example_world) = 0 \<and>
   fst (git_apply example_env ''/oc'' ''/patches/P.patch'' (fs example_world)) = 0 \<and>
   fst (applyPatch example_env stale_patch example_world) = True \<and>
   \<not> checkPatchApplied example_env stale_patch
       (fs (snd (applyPatch example_env stale_patch example_world)))"
proof -
  have a: "applyPatch example_env stale_patch example_world =
     (True, example_world\<lparr>git_calls := [ApplyCheck ''/patches/P.patch'', Apply ''/patches/P.patch''],
               fs := example_fs(''/oc/target'' := File ''oldnew'')\<rparr>)"
    using example_checks(2) example_apply
    by (simp add: applyPatch_def Let_def example_env_def stale_patch_def example_world_def)
  have "\<not> checkPatchApplied example_env stale_patch (example_fs(''/oc/target'' := File ''oldnew''))"
    by (simp add: checkPatchApplied_def stale_patch_def example_env_def grep_q_def example_grep_def)
  with a example_checks(2) example_apply(3,4) show ?thesis
    by (simp add: example_env_def stale_patch_def)
qed

section \<open>The batch\<close>

lemma worldAfter_Cons:
  "worldAfter e w (p # ps) = worldAfter e (snd (applyPatch e p w)) ps"
  by (simp add: worldAfter_def)

lemma resultsOf_Nil: "resultsOf e w [] = []"
  by (simp add: resultsOf_def)

lemma resultsOf_Cons:
  "resultsOf e w (p # ps) = fst (applyPatch e p w) # resultsOf e (snd (applyPatch e p w)) ps"
proof -
  have "[0..<length (p # ps)] = 0 # map Suc [0..<length ps]"
    by (simp add: upt_conv_Cons map_Suc_upt del: upt_Suc)
  then show ?thesis
    by (simp add: resultsOf_def worldAfter_Cons worldAfter_def del: upt_Suc)
qed

lemma applyInOrder_fold:
  "map (findPatch ps) xs = map Some batch \<Longrightarrow>
     applyInOrder e ps xs rs w = (rs @ resultsOf e w batch, worldAfter e w batch)"
proof (induction xs arbitrary: batch rs w)
  case Nil
  then show ?case by (simp add: resultsOf_Nil worldAfter_def)
next
  case (Cons x xs)
  from Cons.prems obtain p rest where b: "batch = p # rest"
    and fp: "findPatch ps x = Some p" and r: "map (findPatch ps) xs = map Some rest"
    by (cases batch) auto
  obtain res w' where a: "applyPatch e p w = (res, w')" by (cases "applyPatch e p w")
  from Cons.IH [OF r, of "rs @ [res]" w'] b fp a show ?case
    by (simp add: resultsOf_Cons worldAfter_Cons)
qed

lemma declared_batch:
  "set xs \<subseteq> declared ps \<Longrightarrow> \<exists>batch. map (findPatch ps) xs = map Some batch"
proof (induction xs)
  case Nil
  then show ?case by simp
next
  case (Cons x xs)
  then obtain batch where "map (findPatch ps) xs = map Some batch" by auto
  moreover from Cons.prems obtain p where "findPatch ps x = Some p"
    using findPatch_None [of ps x] by (cases "findPatch ps x") auto
  ultimately have "map (findPatch ps) (x # xs) = map Some (p # batch)" by simp
  then show ?case by blast
qed

text \<open>
  Claim C7. For an order that the resolution returns, every id of the order is the id of an
  entry, and \<open>applyPatches\<close> runs \<open>applyPatch\<close> on each of these entries in turn, whatever the
  earlier results are: the result at position \<open>i\<close> is that of \<open>applyPatch\<close> on the \<open>i\<close>-th
  patch in the world that the first \<open>i\<close> patches left, and the world the command leaves is
  the world after the last patch. The command ends the process with code 1, after printing
  the number of failures, exactly when some result is false; otherwise it returns normally.
\<close>

theorem applyPatches_attempts_all:
  assumes "resolveApplyOrder (patches config) (patchesToApply config options) {} [] = Inr order"
  shows "\<exists>batch. map (findPatch (patches config)) order = map Some batch \<and>
           length (resultsOf e w batch) = length order \<and>
           (\<forall>i<length order.
              resultsOf e w batch ! i
                = fst (applyPatch e (batch ! i) (worldAfter e w (take i batch)))) \<and>
           applyPatches e config options w =
             (if patchesToApply config options = []
              then (Returned, console_log [NoPatchesToApply] w)
              else if False \<in> set (resultsOf e w batch)
              then (Exited 1,
                    console_error
                      [PatchesFailedToApply (length (filter (\<lambda>r. \<not> r) (resultsOf e w batch)))]
                      (worldAfter e w batch))
              else (Returned, worldAfter e w batch))"
proof -
  from applyOrder_result [OF assms] have "topo (patches config) {} order" by simp
  then have "set order \<subseteq> declared (patches config)" by (rule topo_declared)
  from declared_batch [OF this] obtain batch where
    b: "map (findPatch (patches config)) order = map Some batch" by blast
  then have len: "length batch = length order"
    by (metis length_map)
  have l: "length (resultsOf e w batch) = length order"
    using len by (simp add: resultsOf_def)
  have n: "resultsOf e w batch ! i
             = fst (applyPatch e (batch ! i) (worldAfter e w (take i batch)))"
    if "i < length order" for i
    using that len by (simp add: resultsOf_def)
  have f: "(filter Not rs = []) = (False \<notin> set rs)" for rs :: "bool list"
    by (induction rs) auto
  have x: "applyPatches e config options w =
             (if patchesToApply config options = []
              then (Returned, console_log [NoPatchesToApply] w)
              else if False \<in> set (resultsOf e w batch)
              then (Exited 1,
                    console_error
                      [PatchesFailedToApply (length (filter (\<lambda>r. \<not> r) (resultsOf e w batch)))]
                      (worldAfter e w batch))
              else (Returned, worldAfter e w batch))"
    unfolding applyPatches_def Let_def assms
    by (simp add: applyInOrder_fold [OF b] f)
  from b l n x show ?thesis by blast
qed

lemma batch_order:
  "resolveApplyOrder (patches batch_config) (patchesToApply batch_config default_options) {} []
     = Inr [''Q'', ''P'']"
  by (simp add: batch_config_def patchesToApply_def selected_def default_options_def
        missing_artifact_patch_def stale_patch_def findPatch_def)

lemma batch_first:
  "applyPatch example_env missing_artifact_patch example_world
     = (False, example_world\<lparr>stderr := [PatchFileNotFound ''/patches/Q.patch'']\<rparr>)"
  by (simp add: applyPatch_def checkPatchApplied_def missing_artifact_patch_def stale_patch_def
        example_env_def example_world_def example_fs_def grep_q_def example_grep_def
        existsSync_def console_error_def)

lemma batch_second:
  "applyPatch example_env stale_patch
     (example_world\<lparr>stderr := [PatchFileNotFound ''/patches/Q.patch'']\<rparr>)
     = (True, example_world
          \<lparr>stderr := [PatchFileNotFound ''/patches/Q.patch''],
            git_calls := [ApplyCheck ''/patches/P.patch'', Apply ''/patches/P.patch''],
            fs := example_fs(''/oc/target'' := File ''oldnew'')\<rparr>)"
  by (simp add: applyPatch_def checkPatchApplied_def stale_patch_def
        example_env_def example_world_def example_fs_def grep_q_def example_grep_def
        existsSync_def example_git_apply_check_def example_git_apply_def Let_def)

theorem applyPatches_attempts_all_witness:
  "resolveApplyOrder (patches batch_config) (patchesToApply batch_config default_options) {} []
     = Inr [''Q'', ''P''] \<and>
   applyPatches example_env batch_config default_options example_world =
     (Exited 1,
      example_world
        \<lparr>stderr := [PatchFileNotFound ''/patches/Q.patch'', PatchesFailedToApply 1],
          git_calls := [ApplyCheck ''/patches/P.patch'', Apply ''/patches/P.patch''],
          fs := example_fs(''/oc/target'' := File ''oldnew'')\<rparr>)"
proof -
  from applyPatches_attempts_all [OF batch_order, of example_env example_world]
  obtain batch where
    b: "map (findPatch (patches batch_config)) [''Q'', ''P''] = map Some batch"
    and x: "applyPatches example_env batch_config default_options example_world =
             (if patchesToApply batch_config default_options = []
              then (Returned, console_log [NoPatchesToApply] example_world)
              else if False \<in> set (resultsOf example_env example_world batch)
              then (Exited 1,
                    console_error
                      [PatchesFailedToApply
                         (length (filter (\<lambda>r. \<not> r) (resultsOf example_env example_world batch)))]
                      (worldAfter example_env example_world batch))
              else (Returned, worldAfter example_env example_world batch))"
    by blast
  have q: "findPatch (patches batch_config) ''Q'' = Some missing_artifact_patch"
    "findPatch (patches batch_config) ''P'' = Some stale_patch"
    by (simp_all add: batch_config_def findPatch_def missing_artifact_patch_def stale_patch_def)
  from b q have batch: "batch = [missing_artifact_patch, stale_patch]"
    by (cases batch; cases "tl batch") auto
  have ne: "patchesToApply batch_config default_options \<noteq> []"
    by (simp add: batch_config_def patchesToApply_def selected_def default_options_def
          missing_artifact_patch_def stale_patch_def)
  have r: "resultsOf example_env example_world batch = [False, True]"
    unfolding batch by (simp add: resultsOf_Cons resultsOf_Nil batch_first batch_second)
  have wa: "worldAfter example_env example_world batch =
      example_world
        \<lparr>stderr := [PatchFileNotFound ''/patches/Q.patch''],
          git_calls := [ApplyCheck ''/patches/P.patch'', Apply ''/patches/P.patch''],
          fs := example_fs(''/oc/target'' := File ''oldnew'')\<rparr>"
    unfolding batch by (simp add: worldAfter_def batch_first batch_second)
  from x ne r wa batch_order show ?thesis
    by (simp add: console_error_def example_world_def)
qed

section \<open>Enabling and disabling a patch\<close>

lemma findPatch_setEnabled:
  "findPatch ps x = Some p \<Longrightarrow> findPatch (setEnabled ps x b) x = Some (p\<lparr>enabled := b\<rparr>)"
  by (induction ps) (auto simp: findPatch_def)

text \<open>
  Claim C8, as amended. For a patch id present in the configuration:
  \<open>disablePatch\<close> on a patch that is enabled, while some enabled patch lists the id among its
  dependencies, ends the process with code 1 after printing the ids of those patches, and
  saves nothing; \<open>disablePatch\<close> on a patch that is already disabled only prints a notice,
  whether or not enabled patches depend on it; \<open>enablePatch\<close> on a patch that is already
  enabled only prints a notice; and \<open>enablePatch\<close> on a disabled patch sets the flag and
  saves the configuration without looking at any dependency.
\<close>

theorem disable_refused_enable_free:
  assumes "findPatch (patches config) patchId = Some patch"
  shows "(enabled patch \<and> (\<exists>p\<in>set (patches config). enabled p \<and> patchId \<in> set (dependencies p))
            \<longrightarrow>
          disablePatch e config patchId w =
            (Exited 1, config,
             w\<lparr>stderr := stderr w @ [CannotDisablePatch patchId, EnabledPatchesDependOnIt]
                  @ map (\<lambda>p. DependentLine (patch_id p)) (dependents config patchId)\<rparr>) \<and>
          set (dependents config patchId)
            = {p \<in> set (patches config). enabled p \<and> patchId \<in> set (dependencies p)}) \<and>
         (\<not> enabled patch \<longrightarrow>
          disablePatch e config patchId w =
            (Returned, config, w\<lparr>stdout := stdout w @ [PatchAlreadyDisabled patchId]\<rparr>)) \<and>
         (enabled patch \<longrightarrow>
          enablePatch e config patchId w =
            (Returned, config, w\<lparr>stdout := stdout w @ [PatchAlreadyEnabled patchId]\<rparr>)) \<and>
         (\<not> enabled patch
            \<and> bun_write_ok e (config\<lparr>patches := setEnabled (patches config) patchId True\<rparr>)
            \<longrightarrow>
          enablePatch e config patchId w =
            (Returned, config\<lparr>patches := setEnabled (patches config) patchId True\<rparr>,
             w\<lparr>saved := saved w @ [config\<lparr>patches := setEnabled (patches config) patchId True\<rparr>],
               stdout := stdout w @ [EnabledPatch patchId]\<rparr>) \<and>
          findPatch (setEnabled (patches config) patchId True) patchId
            = Some (patch\<lparr>enabled := True\<rparr>))"
proof -
  have d: "dependents config patchId \<noteq> []"
    if "\<exists>p\<in>set (patches config). enabled p \<and> patchId \<in> set (dependencies p)"
    using that by (auto simp: dependents_def filter_empty_conv)
  have s: "set (dependents config patchId)
            = {p \<in> set (patches config). enabled p \<and> patchId \<in> set (dependencies p)}"
    by (auto simp: dependents_def)
  show ?thesis
    using assms d s findPatch_setEnabled [OF assms, of True]
    by (auto simp: disablePatch_def enablePatch_def saveConfig_def console_error_def
          console_log_def Let_def)
qed

theorem disable_refused_enable_free_witness:
  "findPatch (patches chain_config) ''A'' = Some (example_patch ''A'' True []) \<and>
   disablePatch example_env chain_config ''A'' example_world =
     (Exited 1, chain_config,
      example_world\<lparr>stderr := [CannotDisablePatch ''A'', EnabledPatchesDependOnIt,
                                DependentLine ''B'']\<rparr>) \<and>
   enablePatch example_env chain_config ''A'' example_world =
     (Returned, chain_config, example_world\<lparr>stdout := [PatchAlreadyEnabled ''A'']\<rparr>)"
proof -
  have f: "findPatch (patches chain_config) ''A'' = Some (example_patch ''A'' True [])"
    by (simp add: chain_config_def findPatch_def example_patch_def)
  have b: "\<exists>p\<in>set (patches chain_config). enabled p \<and> ''A'' \<in> set (dependencies p)"
    by (simp add: chain_config_def example_patch_def)
  have d: "dependents chain_config ''A'' = [example_patch ''B'' True [''A'']]"
    by (simp add: dependents_def chain_config_def example_patch_def)
  have e: "enabled (example_patch ''A'' True [])" "patch_id (example_patch ''B'' True [''A'']) = ''B''"
    by (simp_all add: example_patch_def)
  have w: "stderr example_world = []" "stdout example_world = []"
    by (simp_all add: example_world_def)
  from disable_refused_enable_free [OF f, of example_env example_world] f b d e w
  show ?thesis by simp
qed

theorem disable_already_disabled_counterexample:
  "findPatch (patches example_config) ''A'' = Some (example_patch ''A'' False []) \<and>
   example_patch ''B'' True [''A''] \<in> set (patches example_config) \<and>
   enabled (example_patch ''B'' True [''A'']) \<and>
   ''A'' \<in> set (dependencies (example_patch ''B'' True [''A''])) \<and>
   disablePatch example_env example_config ''A'' example_world =
     (Returned, example_config, example_world\<lparr>stdout := [PatchAlreadyDisabled ''A'']\<rparr>)"
  by (simp add: disablePatch_def example_config_def example_registry_def example_patch_def
        findPatch_def console_log_def example_world_def)

end
